theory Spec2Isabelle
  imports Complex_Main
begin

section \<open>Rate limiter with circuit breaker: the data model\<close>

text \<open>
  The embedding follows \<^verbatim>\<open>fbx_core/utils/rate_limiter.py\<close>. Python's \<^verbatim>\<open>float\<close> is
  idealised as \<^typ>\<open>real\<close> (no rounding, no infinities), Python's \<^verbatim>\<open>int\<close> is \<^typ>\<open>int\<close>.
  A \<^verbatim>\<open>datetime\<close> is the number of seconds since some epoch, so that the
  \<^verbatim>\<open>total_seconds()\<close> of a difference of two of them is their difference as reals;
  \<^verbatim>\<open>None\<close> for an optional timestamp is \<^const>\<open>None\<close>. Locks are not modelled: every
  method body runs as one step. Logging has no effect on the state and is left out.
\<close>

datatype CircuitState = CLOSED | OPEN | HALF_OPEN

record RateLimitConfig =
  requests_per_second :: real
  burst_size :: int
  max_retries :: int
  initial_backoff :: real
  max_backoff :: real
  backoff_multiplier :: real
  failure_threshold :: int
  recovery_timeout :: real
  half_open_max_calls :: int
  log_rate_limits :: bool
  log_circuit_state :: bool

text \<open>The defaults of the dataclass \<^verbatim>\<open>RateLimitConfig\<close>.\<close>

definition default_config :: RateLimitConfig where
  "default_config =
     \<lparr> requests_per_second = 10, burst_size = 20,
       max_retries = 3, initial_backoff = 1, max_backoff = 60, backoff_multiplier = 2,
       failure_threshold = 5, recovery_timeout = 60, half_open_max_calls = 3,
       log_rate_limits = True, log_circuit_state = True \<rparr>"

text \<open>
  \<^verbatim>\<open>RateLimitStats\<close>. Its field \<^verbatim>\<open>last_failure_time\<close> is named
  \<open>stats_last_failure_time\<close> here, the circuit breaker having a field of the same name.
\<close>

record RateLimitStats =
  total_requests :: int
  successful_requests :: int
  failed_requests :: int
  rate_limited_requests :: int
  circuit_breaker_rejections :: int
  total_retry_attempts :: int
  last_request_time :: "real option"
  stats_last_failure_time :: "real option"

definition RateLimitStats_init :: RateLimitStats where
  "RateLimitStats_init =
     \<lparr> total_requests = 0, successful_requests = 0, failed_requests = 0,
       rate_limited_requests = 0, circuit_breaker_rejections = 0, total_retry_attempts = 0,
       last_request_time = None, stats_last_failure_time = None \<rparr>"

text \<open>The exceptions that the module raises or lets through.\<close>

datatype exn = Exception string | ZeroDivisionError | ValueError

section \<open>Token bucket\<close>

record TokenBucket =
  rate :: real
  capacity :: int
  tokens :: real
  last_update :: real

text \<open>\<^verbatim>\<open>TokenBucket.__init__\<close>; \<open>now\<close> is the reading of \<^verbatim>\<open>time.monotonic()\<close>.\<close>

definition TokenBucket_init :: "real \<Rightarrow> int \<Rightarrow> real \<Rightarrow> TokenBucket" where
  "TokenBucket_init r c now =
     \<lparr> rate = r, capacity = c, tokens = real_of_int c, last_update = now \<rparr>"

text \<open>
  \<^verbatim>\<open>TokenBucket.consume(tokens)\<close>, with \<open>now\<close> the reading of \<^verbatim>\<open>time.monotonic()\<close>
  and \<open>n\<close> the argument. The refill and the new \<^verbatim>\<open>last_update\<close> are written before
  the comparison, so they are kept on every path, also when the division
  \<^verbatim>\<open>needed / self.rate\<close> raises for a zero rate.
\<close>

definition consume :: "real \<Rightarrow> int \<Rightarrow> TokenBucket \<Rightarrow> (exn + bool \<times> real) \<times> TokenBucket" where
  "consume now n tb =
     (let elapsed = now - last_update tb;
          tb1 = tb\<lparr> tokens := min (real_of_int (capacity tb)) (tokens tb + elapsed * rate tb) \<rparr>;
          tb2 = tb1\<lparr> last_update := now \<rparr>
      in if tokens tb2 \<ge> real_of_int n
         then (Inr (True, 0), tb2\<lparr> tokens := tokens tb2 - real_of_int n \<rparr>)
         else (let needed = real_of_int n - tokens tb2
               in if rate tb2 = 0 then (Inl ZeroDivisionError, tb2)
                  else (Inr (False, needed / rate tb2), tb2)))"

text \<open>
  The contract of \<open>consume\<close> in the words of the specification (section 4.1): refill,
  stamp, then either subtract and admit, or report the deficit divided by the rate.
\<close>

definition refill_spec :: "real \<Rightarrow> TokenBucket \<Rightarrow> real" where
  "refill_spec now tb = min (real_of_int (capacity tb)) (tokens tb + (now - last_update tb) * rate tb)"

definition consume_spec :: "real \<Rightarrow> int \<Rightarrow> TokenBucket \<Rightarrow> (bool \<times> real) \<times> TokenBucket" where
  "consume_spec now n tb =
     (if refill_spec now tb \<ge> real_of_int n
      then ((True, 0), tb\<lparr> tokens := refill_spec now tb - real_of_int n, last_update := now \<rparr>)
      else ((False, (real_of_int n - refill_spec now tb) / rate tb),
            tb\<lparr> tokens := refill_spec now tb, last_update := now \<rparr>))"

text \<open>
  A run of \<open>consume\<close> calls, each with the clock reading at which it happens and its
  argument; the result lists the bucket at every observation point, the starting one
  first. A call that raises ends the run, as the exception would.
\<close>

fun consume_run :: "(real \<times> int) list \<Rightarrow> TokenBucket \<Rightarrow> TokenBucket list" where
  "consume_run [] tb = [tb]"
| "consume_run ((now, n) # cs) tb =
     (case consume now n tb of
        (Inl e, tb') \<Rightarrow> [tb, tb']
      | (Inr r, tb') \<Rightarrow> tb # consume_run cs tb')"

section \<open>Circuit breaker\<close>

record CircuitBreaker =
  config :: RateLimitConfig
  state :: CircuitState
  failure_count :: int
  last_failure_time :: "real option"
  half_open_calls :: int

definition CircuitBreaker_init :: "RateLimitConfig \<Rightarrow> CircuitBreaker" where
  "CircuitBreaker_init cfg =
     \<lparr> config = cfg, state = CLOSED, failure_count = 0, last_failure_time = None,
       half_open_calls = 0 \<rparr>"

text \<open>\<^verbatim>\<open>CircuitBreaker._transition_to\<close>.\<close>

definition transition_to :: "CircuitState \<Rightarrow> CircuitBreaker \<Rightarrow> CircuitBreaker" where
  "transition_to new_state cb =
     (let cb1 = cb\<lparr> state := new_state \<rparr>
      in if new_state = HALF_OPEN then cb1\<lparr> half_open_calls := 0 \<rparr>
         else if new_state = CLOSED then cb1\<lparr> failure_count := 0, half_open_calls := 0 \<rparr>
         else cb1)"

text \<open>
  \<^verbatim>\<open>CircuitBreaker.call_allowed\<close>; \<open>now\<close> is the reading of \<^verbatim>\<open>datetime.now()\<close>
  (read in the \<^verbatim>\<open>OPEN\<close> branch only). A \<^verbatim>\<open>datetime\<close> is always truthy, so
  \<^verbatim>\<open>if self.last_failure_time\<close> tests for \<^verbatim>\<open>None\<close>.
\<close>

definition call_allowed :: "real \<Rightarrow> CircuitBreaker \<Rightarrow> bool \<times> CircuitBreaker" where
  "call_allowed now cb =
     (if state cb = CLOSED then (True, cb)
      else if state cb = OPEN then
        (case last_failure_time cb of
           Some t \<Rightarrow>
             (let elapsed = now - t
              in if elapsed \<ge> recovery_timeout (config cb)
                 then (True, transition_to HALF_OPEN cb)
                 else (False, cb))
         | None \<Rightarrow> (False, cb))
      else if state cb = HALF_OPEN then
        (if half_open_calls cb < half_open_max_calls (config cb)
         then (True, cb\<lparr> half_open_calls := half_open_calls cb + 1 \<rparr>)
         else (False, cb))
      else (False, cb))"

text \<open>\<^verbatim>\<open>CircuitBreaker.record_success\<close>.\<close>

definition record_success :: "CircuitBreaker \<Rightarrow> CircuitBreaker" where
  "record_success cb =
     (let cb1 = (if state cb = HALF_OPEN then transition_to CLOSED cb else cb)
      in cb1\<lparr> failure_count := 0 \<rparr>)"

text \<open>\<^verbatim>\<open>CircuitBreaker.record_failure\<close>; \<open>now\<close> is the reading of \<^verbatim>\<open>datetime.now()\<close>.\<close>

definition record_failure :: "real \<Rightarrow> CircuitBreaker \<Rightarrow> CircuitBreaker" where
  "record_failure now cb =
     (let cb1 = cb\<lparr> failure_count := failure_count cb + 1 \<rparr>;
          cb2 = cb1\<lparr> last_failure_time := Some now \<rparr>
      in if state cb2 = HALF_OPEN then transition_to OPEN cb2
         else if failure_count cb2 \<ge> failure_threshold (config cb2) then transition_to OPEN cb2
         else cb2)"

text \<open>
  Runs of breaker operations. \<open>record_failures ts\<close> is one \<open>record_failure\<close> per clock
  reading in \<open>ts\<close>, in order; \<open>call_allowed_run ts\<close> is one admission check per reading
  and returns the answers.
\<close>

fun record_failures :: "real list \<Rightarrow> CircuitBreaker \<Rightarrow> CircuitBreaker" where
  "record_failures [] cb = cb"
| "record_failures (t # ts) cb = record_failures ts (record_failure t cb)"

fun call_allowed_run :: "real list \<Rightarrow> CircuitBreaker \<Rightarrow> bool list \<times> CircuitBreaker" where
  "call_allowed_run [] cb = ([], cb)"
| "call_allowed_run (t # ts) cb =
     (case call_allowed t cb of
        (a, cb1) \<Rightarrow> (case call_allowed_run ts cb1 of (as, cb2) \<Rightarrow> (a # as, cb2)))"

text \<open>
  The three methods that touch a breaker, as operations of a trace, each with the clock
  reading it makes.
\<close>

datatype cb_op = CallAllowed real | RecordSuccess | RecordFailure real

fun cb_apply :: "cb_op \<Rightarrow> CircuitBreaker \<Rightarrow> CircuitBreaker" where
  "cb_apply (CallAllowed t) cb = snd (call_allowed t cb)"
| "cb_apply RecordSuccess cb = record_success cb"
| "cb_apply (RecordFailure t) cb = record_failure t cb"

fun cb_run :: "cb_op list \<Rightarrow> CircuitBreaker \<Rightarrow> CircuitBreaker" where
  "cb_run [] cb = cb"
| "cb_run (x # xs) cb = cb_run xs (cb_apply x cb)"

text \<open>
  The number of admission checks answered \<^verbatim>\<open>True\<close> from a breaker that is in
  \<^verbatim>\<open>HALF_OPEN\<close>, up to the operation after which it has left that state.
\<close>

fun half_open_admits :: "cb_op list \<Rightarrow> CircuitBreaker \<Rightarrow> nat" where
  "half_open_admits [] cb = 0"
| "half_open_admits (x # xs) cb =
     (if state cb \<noteq> HALF_OPEN then 0
      else (case x of
              CallAllowed t \<Rightarrow>
                (if fst (call_allowed t cb) then 1 else 0) + half_open_admits xs (cb_apply x cb)
            | _ \<Rightarrow> half_open_admits xs (cb_apply x cb)))"

text \<open>
  Whether an operation is an admission check that answers \<^verbatim>\<open>True\<close>, and the number of
  \<^verbatim>\<open>True\<close> answers of one half-open episode: that of the operation \<open>x\<close> after which
  the breaker is half-open, and those of the checks that follow in \<open>ys\<close> while it
  remains so.
\<close>

fun admitted :: "cb_op \<Rightarrow> CircuitBreaker \<Rightarrow> bool" where
  "admitted (CallAllowed t) cb = fst (call_allowed t cb)"
| "admitted RecordSuccess cb = False"
| "admitted (RecordFailure t) cb = False"

definition episode_admits :: "cb_op \<Rightarrow> cb_op list \<Rightarrow> CircuitBreaker \<Rightarrow> nat" where
  "episode_admits x ys cb = (if admitted x cb then 1 else 0) + half_open_admits ys (cb_apply x cb)"

section \<open>Rate limiter\<close>

text \<open>
  The world outside the limiter, as far as \<^verbatim>\<open>execute\<close> reads or changes it: the
  reading of \<^verbatim>\<open>time.monotonic()\<close>, the reading of \<^verbatim>\<open>datetime.now()\<close>, the number of
  times the unit of work has been invoked, and the list of the \<^verbatim>\<open>time.sleep\<close> calls made
  so far, each with the place in \<^verbatim>\<open>execute\<close> that made it (waiting for a token, or
  backing off before a retry). Statements other than \<^verbatim>\<open>time.sleep\<close> and the unit of work
  take no time.
\<close>

datatype sleep_kind = RateLimitWait | BackoffWait

record World =
  mono :: real
  wall :: real
  calls :: nat
  sleeps :: "(sleep_kind \<times> real) list"

text \<open>
  \<^verbatim>\<open>time.sleep(d)\<close> raises \<^verbatim>\<open>ValueError\<close> for a negative \<open>d\<close>; otherwise both clocks
  advance by \<open>d\<close>.
\<close>

definition sleep :: "sleep_kind \<Rightarrow> real \<Rightarrow> World \<Rightarrow> exn + World" where
  "sleep k d w =
     (if d < 0 then Inl ValueError
      else Inr (w\<lparr> mono := mono w + d, wall := wall w + d, sleeps := sleeps w @ [(k, d)] \<rparr>))"

text \<open>
  The unit of work \<^verbatim>\<open>func(*args, **kwargs)\<close>: its \<open>k\<close>-th invocation (counted from 0)
  takes some time and either raises an \<^verbatim>\<open>Exception\<close> or returns a value.
\<close>

type_synonym 'a work = "nat \<Rightarrow> real \<times> (exn + 'a)"

text \<open>
  \<^verbatim>\<open>RateLimiter\<close>. Its field \<^verbatim>\<open>config\<close> is named \<open>rl_config\<close> here, the circuit
  breaker having a field of the same name.
\<close>

record RateLimiter =
  rl_config :: RateLimitConfig
  token_bucket :: TokenBucket
  circuit_breaker :: CircuitBreaker
  stats :: RateLimitStats

definition RateLimiter_init :: "RateLimitConfig \<Rightarrow> real \<Rightarrow> RateLimiter" where
  "RateLimiter_init cfg now =
     \<lparr> rl_config = cfg,
       token_bucket = TokenBucket_init (requests_per_second cfg) (burst_size cfg) now,
       circuit_breaker = CircuitBreaker_init cfg,
       stats = RateLimitStats_init \<rparr>"

text \<open>The local variables of \<^verbatim>\<open>execute\<close> that live across iterations of its loop.\<close>

record locals =
  last_exception :: "exn option"
  retry_count :: int
  backoff :: real

text \<open>How a call of \<^verbatim>\<open>execute\<close> ends; \<open>OutOfFuel\<close> stands for a loop still running.\<close>

datatype 'a outcome = Returned 'a | Raised exn | OutOfFuel

text \<open>
  The first part of the loop body (``Rate limiting''): \<open>Inr True\<close> when the body goes on
  to the unit of work, \<open>Inr False\<close> when it reaches \<^verbatim>\<open>continue\<close>, \<open>Inl e\<close> when
  \<^verbatim>\<open>consume\<close> or \<^verbatim>\<open>time.sleep\<close> raises (neither is inside the \<^verbatim>\<open>try\<close>).
\<close>

definition rate_limiting :: "RateLimiter \<Rightarrow> World \<Rightarrow> (exn + bool) \<times> RateLimiter \<times> World" where
  "rate_limiting rl w =
     (case consume (mono w) 1 (token_bucket rl) of
        (Inl e, tb1) \<Rightarrow> (Inl e, rl\<lparr> token_bucket := tb1 \<rparr>, w)
      | (Inr (allowed, wait_time), tb1) \<Rightarrow>
          (let rl1 = rl\<lparr> token_bucket := tb1 \<rparr>
           in if \<not> allowed then
                (let rl2 = rl1\<lparr> stats := (stats rl1)
                             \<lparr> rate_limited_requests := rate_limited_requests (stats rl1) + 1 \<rparr> \<rparr>
                 in case sleep RateLimitWait wait_time w of
                      Inl e \<Rightarrow> (Inl e, rl2, w)
                    | Inr w1 \<Rightarrow>
                        (case consume (mono w1) 1 (token_bucket rl2) of
                           (Inl e, tb2) \<Rightarrow> (Inl e, rl2\<lparr> token_bucket := tb2 \<rparr>, w1)
                         | (Inr (allowed2, _), tb2) \<Rightarrow>
                             (if \<not> allowed2 then (Inr False, rl2\<lparr> token_bucket := tb2 \<rparr>, w1)
                              else (Inr True, rl2\<lparr> token_bucket := tb2 \<rparr>, w1))))
              else (Inr True, rl1, w)))"

text \<open>
  The second part of the loop body (``Execute function''): the \<^verbatim>\<open>try\<close> with its
  \<^verbatim>\<open>except Exception\<close>. \<open>Some out\<close> when \<^verbatim>\<open>execute\<close> ends here (the \<^verbatim>\<open>return\<close>, or
  \<^verbatim>\<open>time.sleep\<close> raising inside the handler), \<open>None\<close> when the loop goes round again.
\<close>

definition attempt ::
  "'a work \<Rightarrow> locals \<Rightarrow> RateLimiter \<Rightarrow> World \<Rightarrow> 'a outcome option \<times> locals \<times> RateLimiter \<times> World" where
  "attempt work lv rl w =
     (let rl1 = rl\<lparr> stats := (stats rl)
                  \<lparr> total_requests := total_requests (stats rl) + 1,
                    last_request_time := Some (wall w) \<rparr> \<rparr>;
          (d, res) = work (calls w);
          w1 = w\<lparr> mono := mono w + d, wall := wall w + d, calls := Suc (calls w) \<rparr>
      in case res of
           Inr result \<Rightarrow>
             (let rl2 = rl1\<lparr> stats := (stats rl1)
                          \<lparr> successful_requests := successful_requests (stats rl1) + 1 \<rparr> \<rparr>;
                  rl3 = rl2\<lparr> circuit_breaker := record_success (circuit_breaker rl2) \<rparr>
              in (Some (Returned result), lv, rl3, w1))
         | Inl e \<Rightarrow>
             (let lv1 = lv\<lparr> last_exception := Some e, retry_count := retry_count lv + 1 \<rparr>;
                  rl2 = rl1\<lparr> stats := (stats rl1)
                          \<lparr> failed_requests := failed_requests (stats rl1) + 1,
                            total_retry_attempts := total_retry_attempts (stats rl1) + 1,
                            stats_last_failure_time := Some (wall w1) \<rparr> \<rparr>;
                  rl3 = rl2\<lparr> circuit_breaker := record_failure (wall w1) (circuit_breaker rl2) \<rparr>
              in if retry_count lv1 \<le> max_retries (rl_config rl3) then
                   (let wait_time = min (backoff lv1) (max_backoff (rl_config rl3))
                    in case sleep BackoffWait wait_time w1 of
                         Inl err \<Rightarrow> (Some (Raised err), lv1, rl3, w1)
                       | Inr w2 \<Rightarrow>
                           (None, lv1\<lparr> backoff := backoff lv1 * backoff_multiplier (rl_config rl3) \<rparr>,
                            rl3, w2))
                 else (None, lv1, rl3, w1)))"

text \<open>
  \<^verbatim>\<open>raise last_exception or Exception("All retry attempts failed")\<close>, after the loop.
\<close>

definition exhausted :: "locals \<Rightarrow> exn" where
  "exhausted lv =
     (case last_exception lv of Some e \<Rightarrow> e | None \<Rightarrow> Exception ''All retry attempts failed'')"

text \<open>
  The loop \<^verbatim>\<open>while retry_count <= self.config.max_retries\<close>. Nothing in the source bounds
  the number of its iterations (the \<^verbatim>\<open>continue\<close> leaves \<open>retry_count\<close> as it is), so the
  model takes the number of iterations it may start as fuel, and answers \<open>OutOfFuel\<close>
  when the loop would start one more. The local variables are returned with the result.
\<close>

fun execute_loop ::
  "nat \<Rightarrow> 'a work \<Rightarrow> locals \<Rightarrow> RateLimiter \<Rightarrow> World \<Rightarrow> 'a outcome \<times> locals \<times> RateLimiter \<times> World" where
  "execute_loop 0 work lv rl w =
     (if retry_count lv \<le> max_retries (rl_config rl) then (OutOfFuel, lv, rl, w)
      else (Raised (exhausted lv), lv, rl, w))"
| "execute_loop (Suc fuel) work lv rl w =
     (if retry_count lv \<le> max_retries (rl_config rl) then
        (case rate_limiting rl w of
           (Inl e, rl1, w1) \<Rightarrow> (Raised e, lv, rl1, w1)
         | (Inr False, rl1, w1) \<Rightarrow> execute_loop fuel work lv rl1 w1
         | (Inr True, rl1, w1) \<Rightarrow>
             (case attempt work lv rl1 w1 of
                (Some out, lv2, rl2, w2) \<Rightarrow> (out, lv2, rl2, w2)
              | (None, lv2, rl2, w2) \<Rightarrow> execute_loop fuel work lv2 rl2 w2))
      else (Raised (exhausted lv), lv, rl, w))"

text \<open>The local variables as \<^verbatim>\<open>execute\<close> sets them before the loop.\<close>

definition execute_locals :: "RateLimitConfig \<Rightarrow> locals" where
  "execute_locals cfg = \<lparr> last_exception = None, retry_count = 0, backoff = initial_backoff cfg \<rparr>"

text \<open>
  \<^verbatim>\<open>RateLimiter.execute\<close>: the circuit breaker is asked once, before the loop.
\<close>

definition execute :: "nat \<Rightarrow> 'a work \<Rightarrow> RateLimiter \<Rightarrow> World \<Rightarrow> 'a outcome \<times> RateLimiter \<times> World" where
  "execute fuel work rl w =
     (case call_allowed (wall w) (circuit_breaker rl) of
        (allowed, cb1) \<Rightarrow>
          (let rl1 = rl\<lparr> circuit_breaker := cb1 \<rparr>
           in if \<not> allowed then
                (Raised (Exception ''Circuit breaker is open - service unavailable''),
                 rl1\<lparr> stats := (stats rl1)
                   \<lparr> circuit_breaker_rejections := circuit_breaker_rejections (stats rl1) + 1 \<rparr> \<rparr>,
                 w)
              else (case execute_loop fuel work (execute_locals (rl_config rl1)) rl1 w of
                      (out, lv, rl2, w2) \<Rightarrow> (out, rl2, w2))))"

text \<open>The durations of the back-off sleeps in a sleep log, in order.\<close>

definition backoff_sleeps :: "World \<Rightarrow> real list" where
  "backoff_sleeps w = map snd (filter (\<lambda>s. fst s = BackoffWait) (sleeps w))"

text \<open>
  Inputs for the examples: a world in which nothing has happened yet, with both clocks at
  \<open>t\<close>, and a unit of work that raises on every invocation, taking no time.
\<close>

definition World_at :: "real \<Rightarrow> World" where
  "World_at t = \<lparr> mono = t, wall = t, calls = 0, sleeps = [] \<rparr>"

definition always_failing :: "unit work" where
  "always_failing k = (0, Inl (Exception ''fail''))"

text \<open>The invariant of the token balance.\<close>

definition bucket_ok :: "TokenBucket \<Rightarrow> bool" where
  "bucket_ok tb \<longleftrightarrow> 0 \<le> tokens tb \<and> tokens tb \<le> real_of_int (capacity tb)"

section \<open>Circuit breaker: properties\<close>

lemma config_transition_to [simp]: "config (transition_to s cb) = config cb"
  by (simp add: transition_to_def Let_def)

lemma config_record_failure [simp]: "config (record_failure t cb) = config cb"
  by (simp add: record_failure_def Let_def)

lemma config_record_success [simp]: "config (record_success cb) = config cb"
  by (simp add: record_success_def Let_def)

lemma config_call_allowed [simp]: "config (snd (call_allowed t cb)) = config cb"
  by (simp add: call_allowed_def Let_def split: option.splits)

lemma config_cb_apply [simp]: "config (cb_apply x cb) = config cb"
  by (cases x) simp_all

lemma config_cb_run [simp]: "config (cb_run xs cb) = config cb"
  by (induction xs arbitrary: cb) simp_all

text \<open>
  Claim C10. A \<open>record_success\<close> on a breaker that is \<^verbatim>\<open>CLOSED\<close> or \<^verbatim>\<open>OPEN\<close> sets
  \<open>failure_count\<close> to 0 and changes nothing else: the state stays what it was (an open
  breaker is not closed by a success), and so do \<open>last_failure_time\<close>,
  \<open>half_open_calls\<close> and the configuration. A success recorded in \<^verbatim>\<open>HALF_OPEN\<close>
  moves the breaker to \<^verbatim>\<open>CLOSED\<close>.
\<close>

theorem record_success_frame:
  "(state cb = CLOSED \<or> state cb = OPEN \<longrightarrow> record_success cb = cb\<lparr> failure_count := 0 \<rparr>)
   \<and> (state cb = HALF_OPEN \<longrightarrow> state (record_success cb) = CLOSED)
   \<and> (state (record_success cb) \<noteq> state cb \<longrightarrow> state cb = HALF_OPEN)"
  by (cases "state cb") (simp_all add: record_success_def transition_to_def Let_def)

theorem record_success_frame_witness:
  "record_success (CircuitBreaker_init default_config\<lparr> state := OPEN, failure_count := 5,
        last_failure_time := Some 7 \<rparr>)
     = CircuitBreaker_init default_config\<lparr> state := OPEN, failure_count := 0,
        last_failure_time := Some 7 \<rparr>
   \<and> state (record_success (CircuitBreaker_init default_config\<lparr> state := HALF_OPEN \<rparr>)) = CLOSED"
  using record_success_frame [of "CircuitBreaker_init default_config\<lparr> state := OPEN,
          failure_count := 5, last_failure_time := Some 7 \<rparr>"]
        record_success_frame [of "CircuitBreaker_init default_config\<lparr> state := HALF_OPEN \<rparr>"]
  by (simp add: CircuitBreaker_init_def)

subsection \<open>The failure threshold\<close>

lemma record_failures_append:
  "record_failures (xs @ ys) cb = record_failures ys (record_failures xs cb)"
  by (induction xs arbitrary: cb) simp_all

lemma config_record_failures [simp]: "config (record_failures ts cb) = config cb"
  by (induction ts arbitrary: cb) simp_all

lemma record_failures_below:
  "state cb = CLOSED \<Longrightarrow> failure_count cb + int (length ts) < failure_threshold (config cb)
   \<Longrightarrow> state (record_failures ts cb) = CLOSED
       \<and> failure_count (record_failures ts cb) = failure_count cb + int (length ts)"
proof (induction ts arbitrary: cb)
  case Nil
  then show ?case by simp
next
  case (Cons t ts)
  let ?cb = "record_failure t cb"
  from Cons.prems have st: "state ?cb = CLOSED" and fc: "failure_count ?cb = failure_count cb + 1"
    by (simp_all add: record_failure_def Let_def)
  from Cons.prems fc have "failure_count ?cb + int (length ts) < failure_threshold (config ?cb)"
    by simp
  from Cons.IH [OF st this] fc show ?case by simp
qed

lemma record_failure_reaches:
  "state cb = CLOSED \<Longrightarrow> failure_count cb + 1 = failure_threshold (config cb)
   \<Longrightarrow> state (record_failure t cb) = OPEN"
  by (simp add: record_failure_def Let_def transition_to_def)

text \<open>
  Claim C5. From a breaker that is \<^verbatim>\<open>CLOSED\<close> with \<open>failure_count = 0\<close>, and a
  threshold of at least 1: after exactly \<open>failure_threshold\<close> consecutive
  \<open>record_failure\<close> calls the state is \<^verbatim>\<open>OPEN\<close>, and after every shorter prefix of them
  it is still \<^verbatim>\<open>CLOSED\<close>; after \<open>failure_threshold - 1\<close> such calls and one
  \<open>record_success\<close> the state is \<^verbatim>\<open>CLOSED\<close> and \<open>failure_count\<close> is 0. The list
  \<open>ts\<close> holds the clock readings of the failures, one per call.
\<close>

theorem breaker_threshold:
  assumes closed: "state cb = CLOSED" and zero: "failure_count cb = 0"
    and th: "1 \<le> failure_threshold (config cb)"
  shows "(int (length ts) = failure_threshold (config cb) \<longrightarrow>
            state (record_failures ts cb) = OPEN
            \<and> (\<forall>k < length ts. state (record_failures (take k ts) cb) = CLOSED))
         \<and> (int (length ts) = failure_threshold (config cb) - 1 \<longrightarrow>
            state (record_success (record_failures ts cb)) = CLOSED
            \<and> failure_count (record_success (record_failures ts cb)) = 0)"
proof (intro conjI impI allI)
  assume len: "int (length ts) = failure_threshold (config cb)"
  with th have "ts \<noteq> []" by auto
  then obtain xs t where ts: "ts = xs @ [t]" by (metis rev_exhaust)
  with len zero have below: "failure_count cb + int (length xs) < failure_threshold (config cb)"
    by simp
  note b = record_failures_below [OF closed below]
  from b len ts zero have "failure_count (record_failures xs cb) + 1
      = failure_threshold (config (record_failures xs cb))" by simp
  from record_failure_reaches [OF conjunct1 [OF b] this]
  show "state (record_failures ts cb) = OPEN" by (simp add: ts record_failures_append)
next
  fix k
  assume len: "int (length ts) = failure_threshold (config cb)" and k: "k < length ts"
  then have "failure_count cb + int (length (take k ts)) < failure_threshold (config cb)"
    using zero by simp
  from record_failures_below [OF closed this]
  show "state (record_failures (take k ts) cb) = CLOSED" by simp
next
  assume len: "int (length ts) = failure_threshold (config cb) - 1"
  then have "failure_count cb + int (length ts) < failure_threshold (config cb)"
    using zero by simp
  from record_failures_below [OF closed this]
  have st: "state (record_failures ts cb) = CLOSED" by simp
  then show "state (record_success (record_failures ts cb)) = CLOSED"
    by (simp add: record_success_def)
next
  show "failure_count (record_success (record_failures ts cb)) = 0"
    by (simp add: record_success_def Let_def)
qed

theorem breaker_threshold_witness:
  "state (record_failures [1, 2, 3] (CircuitBreaker_init (default_config\<lparr> failure_threshold := 3 \<rparr>))) = OPEN
   \<and> state (record_failures [1, 2] (CircuitBreaker_init (default_config\<lparr> failure_threshold := 3 \<rparr>))) = CLOSED
   \<and> state (record_success (record_failures [1, 2]
        (CircuitBreaker_init (default_config\<lparr> failure_threshold := 3 \<rparr>)))) = CLOSED
   \<and> failure_count (record_success (record_failures [1, 2]
        (CircuitBreaker_init (default_config\<lparr> failure_threshold := 3 \<rparr>)))) = 0"
proof -
  let ?cb = "CircuitBreaker_init (default_config\<lparr> failure_threshold := 3 \<rparr>)"
  have h: "state ?cb = CLOSED" "failure_count ?cb = 0" "1 \<le> failure_threshold (config ?cb)"
    by (simp_all add: CircuitBreaker_init_def default_config_def)
  from breaker_threshold [OF h, of "[1, 2, 3]"]
  have a: "state (record_failures [1, 2, 3] ?cb) = OPEN"
    and b: "\<forall>k<length [1, 2, 3::real]. state (record_failures (take k [1, 2, 3]) ?cb) = CLOSED"
    by (simp_all add: CircuitBreaker_init_def default_config_def)
  from breaker_threshold [OF h, of "[1, 2]"]
  have c: "state (record_success (record_failures [1, 2] ?cb)) = CLOSED"
    and d: "failure_count (record_success (record_failures [1, 2] ?cb)) = 0"
    by (simp_all add: CircuitBreaker_init_def default_config_def)
  from b [rule_format, of 2] have "state (record_failures [1, 2] ?cb) = CLOSED" by simp
  with a c d show ?thesis by simp
qed

subsection \<open>Recovery timing\<close>

lemma call_allowed_open_early:
  "state cb = OPEN \<Longrightarrow> last_failure_time cb = Some T
   \<Longrightarrow> t < T + recovery_timeout (config cb) \<Longrightarrow> call_allowed t cb = (False, cb)"
  by (simp add: call_allowed_def Let_def)

lemma call_allowed_open_due:
  "state cb = OPEN \<Longrightarrow> last_failure_time cb = Some T
   \<Longrightarrow> T + recovery_timeout (config cb) \<le> t
   \<Longrightarrow> call_allowed t cb = (True, cb\<lparr> state := HALF_OPEN, half_open_calls := 0 \<rparr>)"
  by (simp add: call_allowed_def Let_def transition_to_def)

lemma call_allowed_run_early:
  "state cb = OPEN \<Longrightarrow> last_failure_time cb = Some T
   \<Longrightarrow> \<forall>t \<in> set ts. t < T + recovery_timeout (config cb)
   \<Longrightarrow> call_allowed_run ts cb = (replicate (length ts) False, cb)"
  by (induction ts) (simp_all add: call_allowed_open_early)

lemma call_allowed_run_append:
  "call_allowed_run (xs @ ys) cb =
     (case call_allowed_run xs cb of
        (as, cb1) \<Rightarrow> (case call_allowed_run ys cb1 of (bs, cb2) \<Rightarrow> (as @ bs, cb2)))"
  by (induction xs arbitrary: cb) (simp_all split: prod.splits)

text \<open>
  Claim C6. For a breaker that is \<^verbatim>\<open>OPEN\<close> with \<open>last_failure_time = T\<close>: every
  admission check at a time before \<open>T + recovery_timeout\<close> answers \<^verbatim>\<open>False\<close> and leaves
  the breaker as it is, and the first check at or after \<open>T + recovery_timeout\<close> answers
  \<^verbatim>\<open>True\<close> and leaves the breaker in \<^verbatim>\<open>HALF_OPEN\<close> (with \<open>half_open_calls = 0\<close> and
  nothing else changed). The list \<open>ts\<close> holds the times of the earlier checks, \<open>t\<close> is
  the time of the first check that is due.
\<close>

theorem recovery_timing:
  assumes "state cb = OPEN" and "last_failure_time cb = Some T"
    and "\<forall>s \<in> set ts. s < T + recovery_timeout (config cb)"
    and "T + recovery_timeout (config cb) \<le> t"
  shows "call_allowed_run ts cb = (replicate (length ts) False, cb)
         \<and> call_allowed_run (ts @ [t]) cb
             = (replicate (length ts) False @ [True], cb\<lparr> state := HALF_OPEN, half_open_calls := 0 \<rparr>)"
  using assms
  by (simp add: call_allowed_run_append call_allowed_run_early call_allowed_open_due)

theorem recovery_timing_witness:
  "call_allowed_run [10, 59.5, 60]
      (CircuitBreaker_init default_config\<lparr> state := OPEN, failure_count := 5,
         last_failure_time := Some 0 \<rparr>)
   = ([False, False, True],
      CircuitBreaker_init default_config\<lparr> state := HALF_OPEN, failure_count := 5,
         last_failure_time := Some 0 \<rparr>)"
proof -
  let ?cb = "CircuitBreaker_init default_config\<lparr> state := OPEN, failure_count := 5,
         last_failure_time := Some 0 \<rparr>"
  have h: "state ?cb = OPEN" "last_failure_time ?cb = Some 0"
    "\<forall>s \<in> set [10, 59.5]. s < 0 + recovery_timeout (config ?cb)"
    "0 + recovery_timeout (config ?cb) \<le> 60"
    by (simp_all add: CircuitBreaker_init_def default_config_def)
  from recovery_timing [OF h] show ?thesis
    by (simp add: CircuitBreaker_init_def)
qed

section \<open>Token bucket: properties\<close>

lemma consume_unfold:
  "consume now n tb =
     (if real_of_int n \<le> refill_spec now tb
      then (Inr (True, 0), tb\<lparr> tokens := refill_spec now tb - real_of_int n, last_update := now \<rparr>)
      else if rate tb = 0
           then (Inl ZeroDivisionError, tb\<lparr> tokens := refill_spec now tb, last_update := now \<rparr>)
           else (Inr (False, (real_of_int n - refill_spec now tb) / rate tb),
                 tb\<lparr> tokens := refill_spec now tb, last_update := now \<rparr>))"
  unfolding consume_def refill_spec_def Let_def by simp

text \<open>
  Claim C7. For a bucket with a positive rate, \<open>consume now n\<close> does what the
  specification says (\<open>consume_spec\<close>): it refills to
  \<open>min capacity (tokens + (now - last_update) * rate)\<close> and sets \<open>last_update = now\<close>;
  when the refilled balance is at least \<open>n\<close> it subtracts \<open>n\<close> and returns
  \<open>(True, 0)\<close>; otherwise it returns \<open>False\<close> with the deficit divided by the rate, a
  wait that is not negative, and leaves the refilled balance as it is. It never raises.
\<close>

theorem consume_refines_spec:
  assumes "0 < rate tb"
  shows "consume now n tb = (Inr (fst (consume_spec now n tb)), snd (consume_spec now n tb))
         \<and> 0 \<le> snd (fst (consume_spec now n tb))
         \<and> (real_of_int n \<le> refill_spec now tb \<longrightarrow>
              consume now n tb
                = (Inr (True, 0), tb\<lparr> tokens := refill_spec now tb - real_of_int n, last_update := now \<rparr>))
         \<and> (refill_spec now tb < real_of_int n \<longrightarrow>
              consume now n tb
                = (Inr (False, (real_of_int n - refill_spec now tb) / rate tb),
                   tb\<lparr> tokens := refill_spec now tb, last_update := now \<rparr>))"
proof (cases "real_of_int n \<le> refill_spec now tb")
  case True
  then show ?thesis by (simp add: consume_unfold consume_spec_def)
next
  case False
  with assms have "0 \<le> (real_of_int n - refill_spec now tb) / rate tb" by simp
  with False assms show ?thesis by (simp add: consume_unfold consume_spec_def)
qed

theorem consume_refines_spec_witness:
  "consume 3 6 \<lparr> rate = 1, capacity = 10, tokens = 2, last_update = 0 \<rparr>
     = (Inr (False, 1), \<lparr> rate = 1, capacity = 10, tokens = 5, last_update = 3 \<rparr>)
   \<and> consume 3 4 \<lparr> rate = 1, capacity = 10, tokens = 2, last_update = 0 \<rparr>
     = (Inr (True, 0), \<lparr> rate = 1, capacity = 10, tokens = 1, last_update = 3 \<rparr>)"
proof -
  let ?tb = "\<lparr> rate = 1, capacity = 10, tokens = 2, last_update = 0 \<rparr> :: TokenBucket"
  have h: "0 < rate ?tb" by simp
  from consume_refines_spec [OF h, of 3 6] consume_refines_spec [OF h, of 3 4]
  show ?thesis by (simp add: refill_spec_def consume_spec_def)
qed

subsection \<open>The balance stays within the bucket\<close>

lemma consume_keeps_ok:
  assumes "bucket_ok tb" "0 < rate tb" "last_update tb \<le> now" "0 \<le> n"
  shows "\<exists>r tb'. consume now n tb = (Inr r, tb') \<and> bucket_ok tb' \<and> rate tb' = rate tb
           \<and> last_update tb' = now"
proof -
  from assms have "0 \<le> (now - last_update tb) * rate tb" by simp
  with assms have "0 \<le> min (real_of_int (capacity tb)) (tokens tb + (now - last_update tb) * rate tb)"
    by (simp add: bucket_ok_def)
  with assms show ?thesis
    by (auto simp add: consume_def Let_def bucket_ok_def)
qed

lemma consume_run_ok:
  "bucket_ok tb \<Longrightarrow> 0 < rate tb \<Longrightarrow> sorted (last_update tb # map fst cs)
   \<Longrightarrow> \<forall>c \<in> set cs. 0 \<le> snd c
   \<Longrightarrow> length (consume_run cs tb) = Suc (length cs) \<and> (\<forall>b \<in> set (consume_run cs tb). bucket_ok b)"
proof (induction cs arbitrary: tb)
  case Nil
  then show ?case by simp
next
  case (Cons c cs)
  obtain now n where c: "c = (now, n)" by (cases c)
  from Cons.prems c have "last_update tb \<le> now" "0 \<le> n" by simp_all
  from consume_keeps_ok [OF Cons.prems(1,2) this]
  obtain r tb' where step: "consume now n tb = (Inr r, tb')" and ok: "bucket_ok tb'"
    and rt: "rate tb' = rate tb" and lu: "last_update tb' = now" by blast
  from Cons.prems c lu have "sorted (last_update tb' # map fst cs)" by simp
  from Cons.IH [OF ok _ this] Cons.prems rt
  have "length (consume_run cs tb') = Suc (length cs) \<and> (\<forall>b \<in> set (consume_run cs tb'). bucket_ok b)"
    by simp
  with step c Cons.prems(1) show ?case by simp
qed

text \<open>
  Claim C8. A bucket created at time \<open>t0\<close> with a positive rate and a capacity of at
  least 1, then used by any sequence of \<open>consume n\<close> calls with \<open>n \<ge> 0\<close> at clock
  readings that never decrease: no call raises (there is one observation per call, after
  the initial one), and \<open>0 \<le> tokens \<le> capacity\<close> at every observation point.
\<close>

theorem tokens_within_capacity:
  assumes "0 < r" and "1 \<le> c" and "sorted (t0 # map fst cs)" and "\<forall>x \<in> set cs. 0 \<le> snd x"
  shows "length (consume_run cs (TokenBucket_init r c t0)) = Suc (length cs)
         \<and> (\<forall>b \<in> set (consume_run cs (TokenBucket_init r c t0)).
               0 \<le> tokens b \<and> tokens b \<le> real_of_int (capacity b))"
proof -
  let ?tb = "TokenBucket_init r c t0"
  from assms have "bucket_ok ?tb" "0 < rate ?tb" "sorted (last_update ?tb # map fst cs)"
    by (simp_all add: TokenBucket_init_def bucket_ok_def)
  from consume_run_ok [OF this assms(4)] show ?thesis by (simp add: bucket_ok_def)
qed

theorem tokens_within_capacity_witness:
  "map tokens (consume_run [(0, 2), (0, 1), (1, 1), (5, 0)] (TokenBucket_init (1/2) 2 0))
     = [2, 0, 0, 1/2, 2]"
proof -
  have h: "(0::real) < 1/2" "(1::int) \<le> 2" "sorted (0 # map fst [(0::real, 2::int), (0, 1), (1, 1), (5, 0)])"
    "\<forall>x \<in> set [(0::real, 2::int), (0, 1), (1, 1), (5, 0)]. 0 \<le> snd x"
    by simp_all
  from tokens_within_capacity [OF h]
  have "length (consume_run [(0, 2), (0, 1), (1, 1), (5, 0)] (TokenBucket_init (1/2) 2 0)) = 5"
    by simp
  then show ?thesis by (simp add: consume_def TokenBucket_init_def Let_def)
qed

subsection \<open>Probes in the half-open state\<close>

lemma cb_apply_keeps_bound:
  assumes "0 \<le> half_open_max_calls (config cb)"
    and "state cb = HALF_OPEN \<longrightarrow> 0 \<le> half_open_calls cb \<and> half_open_calls cb \<le> half_open_max_calls (config cb)"
  shows "state (cb_apply x cb) = HALF_OPEN \<longrightarrow>
           0 \<le> half_open_calls (cb_apply x cb)
           \<and> half_open_calls (cb_apply x cb) \<le> half_open_max_calls (config cb)"
proof (cases x)
  case (CallAllowed t)
  with assms show ?thesis
    by (cases "state cb")
       (auto simp add: call_allowed_def transition_to_def Let_def split: option.splits)
next
  case RecordSuccess
  with assms show ?thesis
    by (cases "state cb") (auto simp add: record_success_def transition_to_def Let_def)
next
  case (RecordFailure t)
  with assms show ?thesis
    by (cases "state cb") (auto simp add: record_failure_def transition_to_def Let_def)
qed

lemma cb_run_keeps_bound:
  "0 \<le> half_open_max_calls (config cb)
   \<Longrightarrow> state cb = HALF_OPEN \<longrightarrow> 0 \<le> half_open_calls cb \<and> half_open_calls cb \<le> half_open_max_calls (config cb)
   \<Longrightarrow> state (cb_run xs cb) = HALF_OPEN \<longrightarrow>
         0 \<le> half_open_calls (cb_run xs cb)
         \<and> half_open_calls (cb_run xs cb) \<le> half_open_max_calls (config cb)"
proof (induction xs arbitrary: cb)
  case Nil
  then show ?case by simp
next
  case (Cons x xs)
  from cb_apply_keeps_bound [OF Cons.prems, of x] Cons.prems(1)
  have "0 \<le> half_open_max_calls (config (cb_apply x cb))"
    and "state (cb_apply x cb) = HALF_OPEN \<longrightarrow>
           0 \<le> half_open_calls (cb_apply x cb)
           \<and> half_open_calls (cb_apply x cb) \<le> half_open_max_calls (config (cb_apply x cb))"
    by simp_all
  from Cons.IH [OF this] show ?case by simp
qed

lemma half_open_admits_elsewhere:
  "state cb \<noteq> HALF_OPEN \<Longrightarrow> half_open_admits xs cb = 0"
  by (cases xs) simp_all

lemma entering_half_open:
  "state cb \<noteq> HALF_OPEN \<Longrightarrow> state (cb_apply x cb) = HALF_OPEN
   \<Longrightarrow> half_open_calls (cb_apply x cb) = 0 \<and> (\<exists>t. x = CallAllowed t) \<and> state cb = OPEN"
  by (cases x; cases "state cb")
     (auto simp add: call_allowed_def record_success_def record_failure_def transition_to_def
        Let_def split: option.splits if_splits)

lemma half_open_admits_bound:
  "state cb = HALF_OPEN \<Longrightarrow> half_open_calls cb \<le> half_open_max_calls (config cb)
   \<Longrightarrow> int (half_open_admits xs cb) \<le> half_open_max_calls (config cb) - half_open_calls cb"
proof (induction xs arbitrary: cb)
  case Nil
  then show ?case by simp
next
  case (Cons x xs)
  show ?case
  proof (cases x)
    case (CallAllowed t)
    show ?thesis
    proof (cases "half_open_calls cb < half_open_max_calls (config cb)")
      case True
      let ?cb = "cb\<lparr> half_open_calls := half_open_calls cb + 1 \<rparr>"
      from True Cons.prems have ca: "call_allowed t cb = (True, ?cb)"
        by (simp add: call_allowed_def)
      from True Cons.prems
      have "int (half_open_admits xs ?cb) \<le> half_open_max_calls (config ?cb) - half_open_calls ?cb"
        by (intro Cons.IH) simp_all
      with ca CallAllowed Cons.prems show ?thesis by simp
    next
      case False
      with Cons.prems have ca: "call_allowed t cb = (False, cb)"
        by (simp add: call_allowed_def)
      from Cons.IH [OF Cons.prems] ca CallAllowed Cons.prems show ?thesis by simp
    qed
  next
    case RecordSuccess
    from Cons.prems have "state (record_success cb) \<noteq> HALF_OPEN"
      by (simp add: record_success_def transition_to_def Let_def)
    from half_open_admits_elsewhere [OF this] RecordSuccess Cons.prems show ?thesis by simp
  next
    case (RecordFailure t)
    from Cons.prems have "state (record_failure t cb) \<noteq> HALF_OPEN"
      by (simp add: record_failure_def transition_to_def Let_def)
    from half_open_admits_elsewhere [OF this] RecordFailure Cons.prems show ?thesis by simp
  qed
qed

lemma entering_is_admitted:
  "state cb \<noteq> HALF_OPEN \<Longrightarrow> state (cb_apply x cb) = HALF_OPEN \<Longrightarrow> admitted x cb"
  by (cases x; cases "state cb")
     (auto simp add: call_allowed_def record_success_def record_failure_def transition_to_def
        Let_def split: option.splits if_splits)

lemmas breaker_defs =
  CircuitBreaker_init_def default_config_def record_failure_def record_success_def
  call_allowed_def transition_to_def episode_admits_def Let_def

text \<open>
  Claim C3, as the code has it. Take a breaker made by \<open>CircuitBreaker_init\<close> with
  \<open>half_open_max_calls \<ge> 0\<close>, and let \<open>cb\<close> be its state after any sequence \<open>xs\<close> of
  \<open>call_allowed\<close>, \<open>record_success\<close> and \<open>record_failure\<close> calls. Whenever \<open>cb\<close> is in
  \<^verbatim>\<open>HALF_OPEN\<close>, \<open>0 \<le> half_open_calls \<le> half_open_max_calls\<close>. If the next operation
  \<open>x\<close> makes the breaker enter \<^verbatim>\<open>HALF_OPEN\<close>, then \<open>x\<close> is an admission check that
  answers \<^verbatim>\<open>True\<close> and leaves \<open>half_open_calls = 0\<close>, so that this answer is not
  counted; over any continuation \<open>ys\<close>, up to the point where the breaker leaves
  \<^verbatim>\<open>HALF_OPEN\<close> again, at most \<open>half_open_max_calls\<close> of the checks made while the
  breaker is half-open answer \<^verbatim>\<open>True\<close>; and together with the entering check the
  episode has at most \<open>half_open_max_calls + 1\<close> answers \<^verbatim>\<open>True\<close>.
\<close>

theorem half_open_episode_bound:
  assumes "0 \<le> half_open_max_calls cfg"
  shows "(state (cb_run xs (CircuitBreaker_init cfg)) = HALF_OPEN \<longrightarrow>
            0 \<le> half_open_calls (cb_run xs (CircuitBreaker_init cfg))
            \<and> half_open_calls (cb_run xs (CircuitBreaker_init cfg)) \<le> half_open_max_calls cfg)
         \<and> (state (cb_run xs (CircuitBreaker_init cfg)) \<noteq> HALF_OPEN
            \<and> state (cb_apply x (cb_run xs (CircuitBreaker_init cfg))) = HALF_OPEN \<longrightarrow>
            admitted x (cb_run xs (CircuitBreaker_init cfg))
            \<and> half_open_calls (cb_apply x (cb_run xs (CircuitBreaker_init cfg))) = 0
            \<and> int (half_open_admits ys (cb_apply x (cb_run xs (CircuitBreaker_init cfg))))
                \<le> half_open_max_calls cfg
            \<and> int (episode_admits x ys (cb_run xs (CircuitBreaker_init cfg)))
                \<le> half_open_max_calls cfg + 1)"
proof (intro conjI impI)
  let ?cb0 = "CircuitBreaker_init cfg"
  have c0: "config ?cb0 = cfg" and s0: "state ?cb0 \<noteq> HALF_OPEN"
    by (simp_all add: CircuitBreaker_init_def)
  assume "state (cb_run xs ?cb0) = HALF_OPEN"
  with cb_run_keeps_bound [of ?cb0 xs] assms c0 s0
  show "0 \<le> half_open_calls (cb_run xs ?cb0)"
    and "half_open_calls (cb_run xs ?cb0) \<le> half_open_max_calls cfg"
    by simp_all
next
  let ?cb = "cb_run xs (CircuitBreaker_init cfg)"
  have c: "config (cb_apply x ?cb) = cfg" by (simp add: CircuitBreaker_init_def)
  assume a: "state ?cb \<noteq> HALF_OPEN \<and> state (cb_apply x ?cb) = HALF_OPEN"
  from a entering_is_admitted [of ?cb x] show adm: "admitted x ?cb" by simp
  from a entering_half_open [of ?cb x] show z: "half_open_calls (cb_apply x ?cb) = 0" by simp
  with assms c have "half_open_calls (cb_apply x ?cb) \<le> half_open_max_calls (config (cb_apply x ?cb))"
    by simp
  from half_open_admits_bound [OF conjunct2 [OF a] this, of ys] z c
  show b: "int (half_open_admits ys (cb_apply x ?cb)) \<le> half_open_max_calls cfg" by simp
  from b show "int (episode_admits x ys ?cb) \<le> half_open_max_calls cfg + 1"
    by (simp add: episode_admits_def)
qed

theorem half_open_episode_bound_witness:
  "state (cb_run [RecordFailure 0] (CircuitBreaker_init (default_config\<lparr> failure_threshold := 1 \<rparr>))) = OPEN
   \<and> state (cb_run [RecordFailure 0, CallAllowed 60]
       (CircuitBreaker_init (default_config\<lparr> failure_threshold := 1 \<rparr>))) = HALF_OPEN
   \<and> admitted (CallAllowed 60)
       (cb_run [RecordFailure 0] (CircuitBreaker_init (default_config\<lparr> failure_threshold := 1 \<rparr>)))
   \<and> int (episode_admits (CallAllowed 60)
         [CallAllowed 61, CallAllowed 62, CallAllowed 63, CallAllowed 64, CallAllowed 65]
         (cb_run [RecordFailure 0] (CircuitBreaker_init (default_config\<lparr> failure_threshold := 1 \<rparr>))))
       \<le> 3 + 1
   \<and> episode_admits (CallAllowed 60)
         [CallAllowed 61, CallAllowed 62, CallAllowed 63, CallAllowed 64, CallAllowed 65]
         (cb_run [RecordFailure 0] (CircuitBreaker_init (default_config\<lparr> failure_threshold := 1 \<rparr>)))
       = 4"
proof -
  let ?cfg = "default_config\<lparr> failure_threshold := 1 \<rparr>"
  let ?cb = "cb_run [RecordFailure 0] (CircuitBreaker_init ?cfg)"
  let ?ys = "[CallAllowed 61, CallAllowed 62, CallAllowed 63, CallAllowed 64, CallAllowed 65]"
  have h: "0 \<le> half_open_max_calls ?cfg" by (simp add: default_config_def)
  have o: "state ?cb = OPEN" by (simp add: breaker_defs)
  have e: "state ?cb \<noteq> HALF_OPEN \<and> state (cb_apply (CallAllowed 60) ?cb) = HALF_OPEN"
    by (simp add: breaker_defs)
  from half_open_episode_bound [OF h, of "[RecordFailure 0]" "CallAllowed 60" ?ys] e
  have b: "admitted (CallAllowed 60) ?cb"
    "int (episode_admits (CallAllowed 60) ?ys ?cb) \<le> half_open_max_calls ?cfg + 1"
    by blast+
  have v: "episode_admits (CallAllowed 60) ?ys ?cb = 4" by (simp add: breaker_defs)
  from o e b v show ?thesis by (simp add: default_config_def)
qed

text \<open>
  The bound \<open>half_open_max_calls\<close> on the whole episode fails. With the default
  configuration (\<open>failure_threshold = 5\<close>, \<open>recovery_timeout = 60\<close>,
  \<open>half_open_max_calls = 3\<close>), five failures at times 1 to 5 open the breaker. The
  check at time 65 enters \<^verbatim>\<open>HALF_OPEN\<close> and answers \<^verbatim>\<open>True\<close>; so do the checks at 66,
  67 and 68; the check at 69 answers \<^verbatim>\<open>False\<close>, and the breaker is half-open
  throughout: four answers \<^verbatim>\<open>True\<close>, not at most three.
\<close>

theorem half_open_admissions_counterexample:
  "state (record_failures [1, 2, 3, 4, 5] (CircuitBreaker_init default_config)) = OPEN
   \<and> fst (call_allowed_run [65, 66, 67, 68, 69]
           (record_failures [1, 2, 3, 4, 5] (CircuitBreaker_init default_config)))
       = [True, True, True, True, False]
   \<and> state (snd (call_allowed_run [65]
           (record_failures [1, 2, 3, 4, 5] (CircuitBreaker_init default_config)))) = HALF_OPEN
   \<and> state (snd (call_allowed_run [65, 66, 67, 68, 69]
           (record_failures [1, 2, 3, 4, 5] (CircuitBreaker_init default_config)))) = HALF_OPEN
   \<and> episode_admits (CallAllowed 65) [CallAllowed 66, CallAllowed 67, CallAllowed 68, CallAllowed 69]
        (record_failures [1, 2, 3, 4, 5] (CircuitBreaker_init default_config)) = 4
   \<and> \<not> int (episode_admits (CallAllowed 65)
              [CallAllowed 66, CallAllowed 67, CallAllowed 68, CallAllowed 69]
              (record_failures [1, 2, 3, 4, 5] (CircuitBreaker_init default_config)))
       \<le> half_open_max_calls default_config"
  by (simp add: breaker_defs)

section \<open>Rate limiter: properties\<close>

lemma call_allowed_refused:
  "\<not> fst (call_allowed t cb) \<Longrightarrow> call_allowed t cb = (False, cb)"
  by (auto simp add: call_allowed_def Let_def split: option.splits if_splits)

text \<open>
  Claim C4. When the admission check of the circuit breaker answers \<^verbatim>\<open>False\<close>,
  \<open>execute\<close> raises the ``service unavailable'' exception at once, whatever the fuel:
  the world is unchanged (the unit of work is not invoked, nothing sleeps), and the
  limiter is unchanged but for \<open>circuit_breaker_rejections\<close>, which grows by exactly 1;
  so the other counters, the token bucket and the breaker (which a refusing check leaves
  as it is) keep their values.
\<close>

theorem execute_circuit_open:
  assumes "\<not> fst (call_allowed (wall w) (circuit_breaker rl))"
  shows "execute fuel work rl w =
           (Raised (Exception ''Circuit breaker is open - service unavailable''),
            rl\<lparr> stats := (stats rl)
               \<lparr> circuit_breaker_rejections := circuit_breaker_rejections (stats rl) + 1 \<rparr> \<rparr>,
            w)"
  using call_allowed_refused [OF assms] by (simp add: execute_def)

theorem execute_circuit_open_witness:
  "execute 5 always_failing
      (RateLimiter_init default_config 0
         \<lparr> circuit_breaker := CircuitBreaker_init default_config
              \<lparr> state := OPEN, failure_count := 5, last_failure_time := Some 0 \<rparr> \<rparr>)
      (World_at 10)
   = (Raised (Exception ''Circuit breaker is open - service unavailable''),
      RateLimiter_init default_config 0
         \<lparr> circuit_breaker := CircuitBreaker_init default_config
              \<lparr> state := OPEN, failure_count := 5, last_failure_time := Some 0 \<rparr>,
           stats := RateLimitStats_init \<lparr> circuit_breaker_rejections := 1 \<rparr> \<rparr>,
      World_at 10)"
proof -
  let ?rl = "RateLimiter_init default_config 0
         \<lparr> circuit_breaker := CircuitBreaker_init default_config
              \<lparr> state := OPEN, failure_count := 5, last_failure_time := Some 0 \<rparr> \<rparr>"
  have h: "\<not> fst (call_allowed (wall (World_at 10)) (circuit_breaker ?rl))"
    by (simp add: call_allowed_def World_at_def CircuitBreaker_init_def default_config_def)
  from execute_circuit_open [OF h, of 5 always_failing] show ?thesis
    by (simp add: RateLimiter_init_def RateLimitStats_init_def)
qed

subsection \<open>Frame facts of the loop body\<close>

lemma rate_consume [simp]: "rate (snd (consume now n tb)) = rate tb"
  by (simp add: consume_def Let_def)

lemma consume_total: "rate tb \<noteq> 0 \<Longrightarrow> \<exists>a wt tb'. consume now n tb = (Inr (a, wt), tb')"
  by (auto simp add: consume_unfold)

lemma backoff_sleeps_sleep:
  "sleep k d w = Inr w' \<Longrightarrow>
     backoff_sleeps w' = backoff_sleeps w @ (if k = BackoffWait then [d] else [])
     \<and> calls w' = calls w"
  by (auto simp add: sleep_def backoff_sleeps_def split: if_splits)

text \<open>What the rate-limiting part leaves alone.\<close>

lemma rate_limiting_frame:
  assumes "rate_limiting rl w = (r, rl1, w1)"
  shows "rl_config rl1 = rl_config rl \<and> circuit_breaker rl1 = circuit_breaker rl
         \<and> rate (token_bucket rl1) = rate (token_bucket rl)
         \<and> calls w1 = calls w \<and> backoff_sleeps w1 = backoff_sleeps w
         \<and> total_retry_attempts (stats rl1) = total_retry_attempts (stats rl)
         \<and> rate_limited_requests (stats rl) \<le> rate_limited_requests (stats rl1)"
proof -
  obtain r1 tb1 where c1: "consume (mono w) 1 (token_bucket rl) = (r1, tb1)" by (cases "consume (mono w) 1 (token_bucket rl)")
  have rt1: "rate tb1 = rate (token_bucket rl)" using rate_consume [of "mono w" 1 "token_bucket rl"] c1 by simp
  show ?thesis
  proof (cases r1)
    case (Inl e)
    with assms c1 rt1 show ?thesis by (auto simp add: rate_limiting_def)
  next
    case (Inr p)
    obtain a wt where p: "p = (a, wt)" by (cases p)
    show ?thesis
    proof (cases a)
      case True
      with assms c1 rt1 Inr p show ?thesis by (auto simp add: rate_limiting_def Let_def)
    next
      case False
      show ?thesis
      proof (cases "sleep RateLimitWait wt w")
        case (Inl e)
        with assms c1 rt1 Inr p False show ?thesis by (auto simp add: rate_limiting_def Let_def)
      next
        case (Inr w2)
        note sl = backoff_sleeps_sleep [OF Inr]
        obtain r2 tb2 where c2: "consume (mono w2) 1 tb1 = (r2, tb2)" by (cases "consume (mono w2) 1 tb1")
        have rt2: "rate tb2 = rate tb1" using rate_consume [of "mono w2" 1 tb1] c2 by simp
        from assms c1 rt1 \<open>r1 = Inr p\<close> p False Inr c2 rt2 sl show ?thesis
          by (auto simp add: rate_limiting_def Let_def split: sum.splits if_splits prod.splits)
      qed
    qed
  qed
qed

text \<open>With a rate other than 0, the rate-limiting part either admits at once or counts a wait.\<close>

lemma rate_limiting_cases:
  assumes "rate (token_bucket rl) \<noteq> 0" and "rate_limiting rl w = (r, rl1, w1)"
  shows "(r = Inr True \<and> stats rl1 = stats rl \<and> w1 = w)
         \<or> rate_limited_requests (stats rl1) = rate_limited_requests (stats rl) + 1"
proof -
  from consume_total [OF assms(1)] obtain a wt tb1
    where c1: "consume (mono w) 1 (token_bucket rl) = (Inr (a, wt), tb1)" by blast
  show ?thesis
  proof (cases a)
    case True
    with assms c1 show ?thesis by (auto simp add: rate_limiting_def Let_def)
  next
    case False
    with assms c1 show ?thesis
      by (auto simp add: rate_limiting_def Let_def split: sum.splits if_splits prod.splits)
  qed
qed

text \<open>The attempt when the unit of work raises.\<close>

lemma attempt_failure:
  assumes "work (calls w) = (d, Inl e)"
  shows "\<exists>out lv2 rl2 w2. attempt work lv rl w = (out, lv2, rl2, w2)
           \<and> rl_config rl2 = rl_config rl
           \<and> token_bucket rl2 = token_bucket rl
           \<and> rate_limited_requests (stats rl2) = rate_limited_requests (stats rl)
           \<and> total_retry_attempts (stats rl2) = total_retry_attempts (stats rl) + 1
           \<and> failed_requests (stats rl2) = failed_requests (stats rl) + 1
           \<and> calls w2 = Suc (calls w)
           \<and> last_exception lv2 = Some e
           \<and> retry_count lv2 = retry_count lv + 1
           \<and> (if retry_count lv + 1 \<le> max_retries (rl_config rl)
               then (if min (backoff lv) (max_backoff (rl_config rl)) < 0
                     then out = Some (Raised ValueError) \<and> backoff lv2 = backoff lv
                          \<and> backoff_sleeps w2 = backoff_sleeps w
                     else out = None
                          \<and> backoff lv2 = backoff lv * backoff_multiplier (rl_config rl)
                          \<and> backoff_sleeps w2
                              = backoff_sleeps w @ [min (backoff lv) (max_backoff (rl_config rl))])
               else out = None \<and> backoff lv2 = backoff lv \<and> backoff_sleeps w2 = backoff_sleeps w)"
  using assms
  by (simp add: attempt_def Let_def sleep_def backoff_sleeps_def)

lemma attempt_success:
  assumes "work (calls w) = (d, Inr v)"
  shows "\<exists>rl2 w2. attempt work lv rl w = (Some (Returned v), lv, rl2, w2)
           \<and> rl_config rl2 = rl_config rl
           \<and> token_bucket rl2 = token_bucket rl
           \<and> rate_limited_requests (stats rl2) = rate_limited_requests (stats rl)
           \<and> calls w2 = Suc (calls w)
           \<and> backoff_sleeps w2 = backoff_sleeps w"
  using assms
  by (simp add: attempt_def Let_def backoff_sleeps_def)


lemma attempt_frame:
  assumes "attempt work lv rl w = (out, lv2, rl2, w2)"
  shows "rl_config rl2 = rl_config rl \<and> token_bucket rl2 = token_bucket rl
         \<and> rate_limited_requests (stats rl2) = rate_limited_requests (stats rl)"
proof -
  obtain d res where wk: "work (calls w) = (d, res)" by (cases "work (calls w)")
  show ?thesis
  proof (cases res)
    case (Inl e)
    from attempt_failure [of work w d e lv rl] wk Inl assms show ?thesis by auto
  next
    case (Inr v)
    from attempt_success [of work w d v lv rl] wk Inr assms show ?thesis by auto
  qed
qed

lemma execute_loop_Suc:
  assumes "retry_count lv \<le> max_retries (rl_config rl)" and "rate_limiting rl w = (r, rl1, w1)"
  shows "execute_loop (Suc fuel) work lv rl w =
           (case r of
              Inl e \<Rightarrow> (Raised e, lv, rl1, w1)
            | Inr False \<Rightarrow> execute_loop fuel work lv rl1 w1
            | Inr True \<Rightarrow>
                (case attempt work lv rl1 w1 of
                   (Some out, lv2, rl2, w2) \<Rightarrow> (out, lv2, rl2, w2)
                 | (None, lv2, rl2, w2) \<Rightarrow> execute_loop fuel work lv2 rl2 w2))"
  using assms by (cases r) (simp_all split: bool.splits)

lemma execute_loop_exit:
  "\<not> retry_count lv \<le> max_retries (rl_config rl)
   \<Longrightarrow> execute_loop fuel work lv rl w = (Raised (exhausted lv), lv, rl, w)"
  by (cases fuel) simp_all

lemma execute_loop_rate_limited_mono:
  "execute_loop fuel work lv rl w = (out, lv', rl', w')
   \<Longrightarrow> rate_limited_requests (stats rl) \<le> rate_limited_requests (stats rl')"
proof (induction fuel arbitrary: lv rl w)
  case 0
  then show ?case by (auto split: if_splits)
next
  case (Suc fuel)
  show ?case
  proof (cases "retry_count lv \<le> max_retries (rl_config rl)")
    case False
    with Suc.prems show ?thesis by simp
  next
    case True
    obtain r rl1 w1 where rl: "rate_limiting rl w = (r, rl1, w1)"
      by (cases "rate_limiting rl w")
    from rate_limiting_frame [OF rl]
    have m1: "rate_limited_requests (stats rl) \<le> rate_limited_requests (stats rl1)" by simp
    note step = execute_loop_Suc [OF True rl, of fuel work]
    show ?thesis
    proof (cases r)
      case (Inl e)
      with step Suc.prems m1 show ?thesis by simp
    next
      case (Inr b)
      show ?thesis
      proof (cases b)
        case False
        with step Inr Suc.prems have "execute_loop fuel work lv rl1 w1 = (out, lv', rl', w')" by simp
        from Suc.IH [OF this] m1 show ?thesis by simp
      next
        case True
        obtain res lv2 rl2 w2 where at: "attempt work lv rl1 w1 = (res, lv2, rl2, w2)"
          by (cases "attempt work lv rl1 w1")
        from attempt_frame [OF at]
        have m2: "rate_limited_requests (stats rl2) = rate_limited_requests (stats rl1)" by simp
        show ?thesis
        proof (cases res)
          case None
          with step Inr True at Suc.prems
          have "execute_loop fuel work lv2 rl2 w2 = (out, lv', rl', w')" by simp
          from Suc.IH [OF this] m1 m2 show ?thesis by simp
        next
          case (Some x)
          with step Inr True at Suc.prems m1 m2 show ?thesis by simp
        qed
      qed
    qed
  qed
qed

text \<open>
  The loop when the unit of work always raises and no admission had to wait: it ends
  after the attempts that the retry budget still allows.
\<close>

lemma execute_loop_always_failing:
  assumes "\<forall>k. isl (snd (work k))"
    and "rate (token_bucket rl) \<noteq> 0"
    and "0 \<le> backoff lv" and "0 \<le> backoff_multiplier (rl_config rl)"
    and "0 \<le> max_backoff (rl_config rl)"
    and "retry_count lv \<le> max_retries (rl_config rl)"
    and "nat (max_retries (rl_config rl) - retry_count lv) < fuel"
    and "execute_loop fuel work lv rl w = (out, lv', rl', w')"
    and "rate_limited_requests (stats rl') \<le> rate_limited_requests (stats rl)"
  shows "(\<exists>e d. out = Raised e \<and> work (calls w' - 1) = (d, Inl e))
         \<and> int (calls w') = int (calls w) + (max_retries (rl_config rl) + 1 - retry_count lv)
         \<and> total_retry_attempts (stats rl')
             = total_retry_attempts (stats rl) + (max_retries (rl_config rl) + 1 - retry_count lv)"
  using assms
proof (induction fuel arbitrary: lv rl w)
  case 0
  then show ?case by simp
next
  case (Suc fuel)
  let ?m = "max_retries (rl_config rl)"
  obtain r rl1 w1 where rl: "rate_limiting rl w = (r, rl1, w1)"
    by (cases "rate_limiting rl w")
  note fr = rate_limiting_frame [OF rl]
  note step = execute_loop_Suc [OF Suc.prems(6) rl, of fuel work]
  have adm: "r = Inr True \<and> stats rl1 = stats rl \<and> w1 = w"
  proof (rule ccontr)
    assume "\<not> ?thesis"
    with rate_limiting_cases [OF Suc.prems(2) rl]
    have up: "rate_limited_requests (stats rl1) = rate_limited_requests (stats rl) + 1" by blast
    have "rate_limited_requests (stats rl1) \<le> rate_limited_requests (stats rl')"
    proof (cases r)
      case (Inl e)
      with step Suc.prems(8) show ?thesis by simp
    next
      case (Inr b)
      show ?thesis
      proof (cases b)
        case False
        with step Inr Suc.prems(8)
        have "execute_loop fuel work lv rl1 w1 = (out, lv', rl', w')" by simp
        from execute_loop_rate_limited_mono [OF this] show ?thesis .
      next
        case True
        obtain res lv2 rl2 w2 where at: "attempt work lv rl1 w1 = (res, lv2, rl2, w2)"
          by (cases "attempt work lv rl1 w1")
        from attempt_frame [OF at]
        have m2: "rate_limited_requests (stats rl2) = rate_limited_requests (stats rl1)" by simp
        show ?thesis
        proof (cases res)
          case None
          with step Inr True at Suc.prems(8)
          have "execute_loop fuel work lv2 rl2 w2 = (out, lv', rl', w')" by simp
          from execute_loop_rate_limited_mono [OF this] m2 show ?thesis by simp
        next
          case (Some x)
          with step Inr True at Suc.prems(8) m2 show ?thesis by simp
        qed
      qed
    qed
    with up Suc.prems(9) show False by simp
  qed
  from Suc.prems(1) obtain d e where wk: "work (calls w) = (d, Inl e)"
    by (metis isl_def prod.collapse)
  from attempt_failure [of work w d e lv rl1] wk obtain res lv2 rl2 w2
    where at: "attempt work lv rl1 w = (res, lv2, rl2, w2)"
      and cfg2: "rl_config rl2 = rl_config rl1" and tb2: "token_bucket rl2 = token_bucket rl1"
      and rl2: "rate_limited_requests (stats rl2) = rate_limited_requests (stats rl1)"
      and tra2: "total_retry_attempts (stats rl2) = total_retry_attempts (stats rl1) + 1"
      and calls2: "calls w2 = Suc (calls w)"
      and le2: "last_exception lv2 = Some e"
      and rc2: "retry_count lv2 = retry_count lv + 1"
      and br: "if retry_count lv + 1 \<le> max_retries (rl_config rl1)
               then (if min (backoff lv) (max_backoff (rl_config rl1)) < 0
                     then res = Some (Raised ValueError) \<and> backoff lv2 = backoff lv
                          \<and> backoff_sleeps w2 = backoff_sleeps w
                     else res = None
                          \<and> backoff lv2 = backoff lv * backoff_multiplier (rl_config rl1)
                          \<and> backoff_sleeps w2
                              = backoff_sleeps w @ [min (backoff lv) (max_backoff (rl_config rl1))])
               else res = None \<and> backoff lv2 = backoff lv \<and> backoff_sleeps w2 = backoff_sleeps w"
    by blast
  from fr have cfg1: "rl_config rl1 = rl_config rl" by simp
  from Suc.prems(3,5) have nonneg: "\<not> min (backoff lv) (max_backoff (rl_config rl1)) < 0"
    by (simp add: cfg1)
  from br nonneg have res: "res = None" by (simp split: if_splits)
  with step adm at Suc.prems(8)
  have run: "execute_loop fuel work lv2 rl2 w2 = (out, lv', rl', w')" by simp
  show ?case
  proof (cases "retry_count lv + 1 \<le> ?m")
    case False
    with Suc.prems(6) have eq: "retry_count lv = ?m" by simp
    from False rc2 cfg1 cfg2 have "\<not> retry_count lv2 \<le> max_retries (rl_config rl2)" by simp
    from execute_loop_exit [OF this, of fuel work w2] run
    have "out = Raised (exhausted lv2)" "rl' = rl2" "w' = w2" by simp_all
    with le2 calls2 tra2 adm wk eq show ?thesis by (simp add: exhausted_def)
  next
    case True
    with br nonneg cfg1 have b2: "backoff lv2 = backoff lv * backoff_multiplier (rl_config rl)"
      by simp
    have p1: "\<forall>k. isl (snd (work k))" by (rule Suc.prems(1))
    have p2: "rate (token_bucket rl2) \<noteq> 0" using Suc.prems(2) fr tb2 by simp
    have p3: "0 \<le> backoff lv2" using b2 Suc.prems(3,4) by simp
    have p4: "0 \<le> backoff_multiplier (rl_config rl2)" using Suc.prems(4) cfg1 cfg2 by simp
    have p5: "0 \<le> max_backoff (rl_config rl2)" using Suc.prems(5) cfg1 cfg2 by simp
    have p6: "retry_count lv2 \<le> max_retries (rl_config rl2)" using True rc2 cfg1 cfg2 by simp
    have p7: "nat (max_retries (rl_config rl2) - retry_count lv2) < fuel"
      using Suc.prems(7) True rc2 cfg1 cfg2 by simp
    have p9: "rate_limited_requests (stats rl') \<le> rate_limited_requests (stats rl2)"
      using Suc.prems(9) rl2 adm by simp
    from Suc.IH [OF p1 p2 p3 p4 p5 p6 p7 run p9] cfg1 cfg2 rc2 calls2 tra2 adm
    show ?thesis by simp
  qed
qed


subsection \<open>Single steps of the loop, for evaluation\<close>

lemma rate_limiting_admit:
  assumes "1 \<le> refill_spec (mono w) (token_bucket rl)"
  shows "rate_limiting rl w =
           (Inr True,
            rl\<lparr> token_bucket := (token_bucket rl)
                 \<lparr> tokens := refill_spec (mono w) (token_bucket rl) - 1, last_update := mono w \<rparr> \<rparr>,
            w)"
  using assms by (simp add: rate_limiting_def consume_unfold)

lemma rate_limiting_continue:
  assumes "refill_spec (mono w) (token_bucket rl) < 1" and "rate (token_bucket rl) \<noteq> 0"
    and "0 \<le> (1 - refill_spec (mono w) (token_bucket rl)) / rate (token_bucket rl)"
    and "min (real_of_int (capacity (token_bucket rl)))
           (refill_spec (mono w) (token_bucket rl)
              + (1 - refill_spec (mono w) (token_bucket rl)) / rate (token_bucket rl)
                * rate (token_bucket rl)) < 1"
  shows "rate_limiting rl w =
           (Inr False,
            rl\<lparr> token_bucket := (token_bucket rl)
                 \<lparr> tokens := min (real_of_int (capacity (token_bucket rl)))
                      (refill_spec (mono w) (token_bucket rl)
                         + (1 - refill_spec (mono w) (token_bucket rl)) / rate (token_bucket rl)
                           * rate (token_bucket rl)),
                   last_update := mono w
                     + (1 - refill_spec (mono w) (token_bucket rl)) / rate (token_bucket rl) \<rparr>,
               stats := (stats rl)
                 \<lparr> rate_limited_requests := rate_limited_requests (stats rl) + 1 \<rparr> \<rparr>,
            w\<lparr> mono := mono w + (1 - refill_spec (mono w) (token_bucket rl)) / rate (token_bucket rl),
               wall := wall w + (1 - refill_spec (mono w) (token_bucket rl)) / rate (token_bucket rl),
               sleeps := sleeps w
                 @ [(RateLimitWait, (1 - refill_spec (mono w) (token_bucket rl)) / rate (token_bucket rl))] \<rparr>)"
  using assms
  by (simp add: rate_limiting_def consume_unfold sleep_def Let_def refill_spec_def)

lemma attempt_raises:
  assumes "work (calls w) = (d, Inl e)"
  shows "attempt work lv rl w =
           (let lv1 = lv\<lparr> last_exception := Some e, retry_count := retry_count lv + 1 \<rparr>;
                rl3 = rl\<lparr> stats := (stats rl)
                         \<lparr> total_requests := total_requests (stats rl) + 1,
                           last_request_time := Some (wall w),
                           failed_requests := failed_requests (stats rl) + 1,
                           total_retry_attempts := total_retry_attempts (stats rl) + 1,
                           stats_last_failure_time := Some (wall w + d) \<rparr>,
                       circuit_breaker := record_failure (wall w + d) (circuit_breaker rl) \<rparr>;
                w1 = w\<lparr> mono := mono w + d, wall := wall w + d, calls := Suc (calls w) \<rparr>;
                wait_time = min (backoff lv) (max_backoff (rl_config rl))
            in if retry_count lv + 1 \<le> max_retries (rl_config rl)
               then if wait_time < 0 then (Some (Raised ValueError), lv1, rl3, w1)
                    else (None, lv1\<lparr> backoff := backoff lv * backoff_multiplier (rl_config rl) \<rparr>, rl3,
                          w1\<lparr> mono := mono w + d + wait_time, wall := wall w + d + wait_time,
                             sleeps := sleeps w @ [(BackoffWait, wait_time)] \<rparr>)
               else (None, lv1, rl3, w1))"
  using assms by (simp add: attempt_def Let_def sleep_def)

lemmas run_defs =
  execute_def execute_locals_def RateLimiter_init_def TokenBucket_init_def
  CircuitBreaker_init_def RateLimitStats_init_def default_config_def World_at_def
  always_failing_def refill_spec_def call_allowed_def
  record_failure_def transition_to_def exhausted_def Let_def

lemma execute_default_always_failing:
  "execute 4 always_failing (RateLimiter_init default_config 0) (World_at 0) =
     (Raised (Exception ''fail''),
      \<lparr> rl_config = default_config,
        token_bucket = \<lparr> rate = 10, capacity = 20, tokens = 19, last_update = 7 \<rparr>,
        circuit_breaker = \<lparr> config = default_config, state = CLOSED, failure_count = 4,
           last_failure_time = Some 7, half_open_calls = 0 \<rparr>,
        stats = \<lparr> total_requests = 4, successful_requests = 0, failed_requests = 4,
           rate_limited_requests = 0, circuit_breaker_rejections = 0, total_retry_attempts = 4,
           last_request_time = Some 7, stats_last_failure_time = Some 7 \<rparr> \<rparr>,
      \<lparr> mono = 7, wall = 7, calls = 4,
        sleeps = [(BackoffWait, 1), (BackoffWait, 2), (BackoffWait, 4)] \<rparr>)"
  by (simp add: run_defs eval_nat_numeral rate_limiting_admit attempt_raises [where d = 0 and e = "Exception ''fail''"])


text \<open>
  The retry bound of the code. Take a configuration with \<open>max_retries = m \<ge> 0\<close> and
  back-off settings that are not negative, a bucket whose rate is not 0, a unit of work
  that raises on every invocation, and a call of \<open>execute\<close> that the circuit breaker
  admits and in which every \<open>consume\<close> admits (for a rate other than 0 that is: the
  counter \<open>rate_limited_requests\<close> is after the call what it was before). Given fuel
  for \<open>m + 1\<close> iterations, the call ends by raising the exception of the last
  invocation of the unit of work, which has then been invoked exactly \<open>m + 1\<close> times,
  and \<open>total_retry_attempts\<close> has grown by exactly \<open>m + 1\<close>: one for every failed
  invocation, the last one included.
\<close>

lemma execute_retry_bound:
  assumes "\<forall>k. isl (snd (work k))"
    and "0 \<le> max_retries (rl_config rl)"
    and "0 \<le> initial_backoff (rl_config rl)"
    and "0 \<le> backoff_multiplier (rl_config rl)"
    and "0 \<le> max_backoff (rl_config rl)"
    and "rate (token_bucket rl) \<noteq> 0"
    and "fst (call_allowed (wall w) (circuit_breaker rl))"
    and "nat (max_retries (rl_config rl)) < fuel"
    and "execute fuel work rl w = (out, rl', w')"
    and "rate_limited_requests (stats rl') = rate_limited_requests (stats rl)"
  shows "(\<exists>e d. out = Raised e \<and> work (calls w' - 1) = (d, Inl e))
         \<and> int (calls w') = int (calls w) + (max_retries (rl_config rl) + 1)
         \<and> total_retry_attempts (stats rl')
             = total_retry_attempts (stats rl) + (max_retries (rl_config rl) + 1)"
proof -
  obtain cb1 where ca: "call_allowed (wall w) (circuit_breaker rl) = (True, cb1)"
    using assms(7) by (cases "call_allowed (wall w) (circuit_breaker rl)") simp
  let ?rl1 = "rl\<lparr> circuit_breaker := cb1 \<rparr>"
  let ?lv = "execute_locals (rl_config rl)"
  obtain lv' where run: "execute_loop fuel work ?lv ?rl1 w = (out, lv', rl', w')"
    using assms(9) ca by (auto simp add: execute_def split: prod.splits)
  have "(\<exists>e d. out = Raised e \<and> work (calls w' - 1) = (d, Inl e))
         \<and> int (calls w') = int (calls w) + (max_retries (rl_config ?rl1) + 1 - retry_count ?lv)
         \<and> total_retry_attempts (stats rl')
             = total_retry_attempts (stats ?rl1) + (max_retries (rl_config ?rl1) + 1 - retry_count ?lv)"
    using assms(1-6,8,10)
    by (intro execute_loop_always_failing [OF _ _ _ _ _ _ _ run]) (simp_all add: execute_locals_def)
  then show ?thesis by (simp add: execute_locals_def)
qed

lemma execute_retry_bound_instance:
  "fst (execute 4 always_failing (RateLimiter_init default_config 0) (World_at 0))
     = Raised (Exception ''fail'')
   \<and> calls (snd (snd (execute 4 always_failing (RateLimiter_init default_config 0) (World_at 0)))) = 4
   \<and> total_retry_attempts
        (stats (fst (snd (execute 4 always_failing (RateLimiter_init default_config 0) (World_at 0))))) = 4"
proof -
  let ?rl = "RateLimiter_init default_config 0"
  let ?w = "World_at 0"
  obtain out rl' w' where run: "execute 4 always_failing ?rl ?w = (out, rl', w')"
    by (cases "execute 4 always_failing ?rl ?w")
  from run have out: "out = Raised (Exception ''fail'')"
    and "rate_limited_requests (stats rl') = 0"
    by (auto simp add: execute_default_always_failing)
  then have rlim: "rate_limited_requests (stats rl') = rate_limited_requests (stats ?rl)"
    by (simp add: RateLimiter_init_def RateLimitStats_init_def)
  have h1: "\<forall>k. isl (snd (always_failing k))" by (simp add: always_failing_def)
  have h2: "0 \<le> max_retries (rl_config ?rl)" "0 \<le> initial_backoff (rl_config ?rl)"
    "0 \<le> backoff_multiplier (rl_config ?rl)" "0 \<le> max_backoff (rl_config ?rl)"
    "rate (token_bucket ?rl) \<noteq> 0"
    by (simp_all add: RateLimiter_init_def default_config_def TokenBucket_init_def)
  have h3: "fst (call_allowed (wall ?w) (circuit_breaker ?rl))"
    by (simp add: call_allowed_def RateLimiter_init_def CircuitBreaker_init_def)
  have h4: "nat (max_retries (rl_config ?rl)) < 4"
    by (simp add: RateLimiter_init_def default_config_def)
  from execute_retry_bound [OF h1 h2 h3 h4 run rlim]
  have "int (calls w') = int (calls ?w) + (max_retries (rl_config ?rl) + 1)"
    and "total_retry_attempts (stats rl')
           = total_retry_attempts (stats ?rl) + (max_retries (rl_config ?rl) + 1)"
    by simp_all
  then have "calls w' = 4" and "total_retry_attempts (stats rl') = 4"
    by (simp_all add: World_at_def RateLimiter_init_def RateLimitStats_init_def default_config_def)
  with out run show ?thesis by simp
qed

text \<open>
  Claim C1. A call of \<open>execute\<close> with \<open>max_retries = m\<close>, in which every \<open>consume\<close>
  admits and the unit of work always raises, is to invoke the unit of work \<open>m + 1\<close>
  times and to add \<open>m\<close> to \<open>total_retry_attempts\<close>. On the code, for a fresh limiter
  with the default configuration (\<open>m = 3\<close>): the call raises the exception of the unit
  of work after invoking it 4 times, no \<open>consume\<close> was refused, and
  \<open>total_retry_attempts\<close> has grown from 0 to 4, not to 3. The counter is incremented
  in the handler before \<open>retry_count \<le> max_retries\<close> is tested, so the last failure,
  after which nothing is retried, is counted as well.
\<close>

theorem execute_retry_attempts_default:
  "fst (execute 4 always_failing (RateLimiter_init default_config 0) (World_at 0))
     = Raised (Exception ''fail'')
   \<and> calls (snd (snd (execute 4 always_failing (RateLimiter_init default_config 0) (World_at 0)))) = 4
   \<and> rate_limited_requests
        (stats (fst (snd (execute 4 always_failing (RateLimiter_init default_config 0) (World_at 0))))) = 0
   \<and> total_retry_attempts (stats (RateLimiter_init default_config 0)) = 0
   \<and> max_retries (rl_config (RateLimiter_init default_config 0)) = 3
   \<and> total_retry_attempts
        (stats (fst (snd (execute 4 always_failing (RateLimiter_init default_config 0) (World_at 0))))) = 4"
  by (simp add: execute_default_always_failing)
     (simp add: RateLimiter_init_def RateLimitStats_init_def default_config_def)

subsection \<open>A bucket that never admits\<close>

lemma execute_loop_starved:
  assumes "capacity (token_bucket rl) = 0" and "tokens (token_bucket rl) = 0"
    and "0 < rate (token_bucket rl)" and "last_update (token_bucket rl) \<le> mono w"
    and "retry_count lv \<le> max_retries (rl_config rl)"
  shows "\<exists>rl' w'. execute_loop fuel work lv rl w = (OutOfFuel, lv, rl', w')
           \<and> calls w' = calls w
           \<and> total_retry_attempts (stats rl') = total_retry_attempts (stats rl)
           \<and> rate_limited_requests (stats rl') = rate_limited_requests (stats rl) + int fuel"
  using assms
proof (induction fuel arbitrary: rl w)
  case 0
  then show ?case by simp
next
  case (Suc fuel)
  let ?tb = "token_bucket rl"
  from Suc.prems have "0 \<le> (mono w - last_update ?tb) * rate ?tb" by simp
  with Suc.prems have rf: "refill_spec (mono w) ?tb = 0" by (simp add: refill_spec_def)
  have c1: "refill_spec (mono w) ?tb < 1" and c2: "rate ?tb \<noteq> 0"
    and c3: "0 \<le> (1 - refill_spec (mono w) ?tb) / rate ?tb"
    and c4: "min (real_of_int (capacity ?tb))
           (refill_spec (mono w) ?tb + (1 - refill_spec (mono w) ?tb) / rate ?tb * rate ?tb) < 1"
    using Suc.prems rf by simp_all
  note rl = rate_limiting_continue [OF c1 c2 c3 c4]
  let ?rl1 = "fst (snd (rate_limiting rl w))" and ?w1 = "snd (snd (rate_limiting rl w))"
  have step: "execute_loop (Suc fuel) work lv rl w = execute_loop fuel work lv ?rl1 ?w1"
    using Suc.prems(5) rl by simp
  have p: "capacity (token_bucket ?rl1) = 0" "tokens (token_bucket ?rl1) = 0"
    "0 < rate (token_bucket ?rl1)" "last_update (token_bucket ?rl1) \<le> mono ?w1"
    "retry_count lv \<le> max_retries (rl_config ?rl1)"
    using Suc.prems rf by (simp_all add: rl)
  from Suc.IH [OF p] obtain rl' w'
    where "execute_loop fuel work lv ?rl1 ?w1 = (OutOfFuel, lv, rl', w')"
      and "calls w' = calls ?w1"
      and "total_retry_attempts (stats rl') = total_retry_attempts (stats ?rl1)"
      and "rate_limited_requests (stats rl') = rate_limited_requests (stats ?rl1) + int fuel"
    by blast
  with step show ?case by (simp add: rl)
qed

text \<open>
  Claim C2, on the code. With \<open>burst_size = 0\<close> (the other settings at their defaults)
  both \<open>consume\<close> calls of every iteration are refused, and the iteration reaches
  \<^verbatim>\<open>continue\<close>. However many iterations the loop is given, it is still running after
  them: the unit of work has not been invoked, \<open>total_retry_attempts\<close> is still 0, and
  \<open>retry_count\<close> has not moved (the loop would have ended after 4 iterations if it had).
  The comment at the \<^verbatim>\<open>continue\<close> reads ``Still not allowed, treat as failure''.
\<close>

theorem execute_continue_not_counted:
  "fst (execute fuel always_failing
          (RateLimiter_init (default_config\<lparr> burst_size := 0 \<rparr>) 0) (World_at 0)) = OutOfFuel
   \<and> calls (snd (snd (execute fuel always_failing
          (RateLimiter_init (default_config\<lparr> burst_size := 0 \<rparr>) 0) (World_at 0)))) = 0
   \<and> total_retry_attempts (stats (fst (snd (execute fuel always_failing
          (RateLimiter_init (default_config\<lparr> burst_size := 0 \<rparr>) 0) (World_at 0))))) = 0
   \<and> rate_limited_requests (stats (fst (snd (execute fuel always_failing
          (RateLimiter_init (default_config\<lparr> burst_size := 0 \<rparr>) 0) (World_at 0))))) = int fuel"
proof -
  let ?rl = "RateLimiter_init (default_config\<lparr> burst_size := 0 \<rparr>) 0"
  let ?lv = "execute_locals (rl_config ?rl)"
  have ca: "call_allowed (wall (World_at 0)) (circuit_breaker ?rl) = (True, circuit_breaker ?rl)"
    by (simp add: call_allowed_def RateLimiter_init_def CircuitBreaker_init_def)
  have "capacity (token_bucket ?rl) = 0" "tokens (token_bucket ?rl) = 0"
    "0 < rate (token_bucket ?rl)" "last_update (token_bucket ?rl) \<le> mono (World_at 0)"
    "retry_count ?lv \<le> max_retries (rl_config ?rl)"
    by (simp_all add: RateLimiter_init_def TokenBucket_init_def default_config_def World_at_def
          execute_locals_def)
  from execute_loop_starved [OF this, of fuel always_failing] obtain rl' w'
    where "execute_loop fuel always_failing ?lv ?rl (World_at 0) = (OutOfFuel, ?lv, rl', w')"
      and "calls w' = calls (World_at 0)"
      and "total_retry_attempts (stats rl') = total_retry_attempts (stats ?rl)"
      and "rate_limited_requests (stats rl') = rate_limited_requests (stats ?rl) + int fuel"
    by blast
  then show ?thesis
    by (simp add: execute_def ca)
       (simp add: World_at_def RateLimiter_init_def RateLimitStats_init_def)
qed


subsection \<open>The back-off schedule\<close>










end
